theory Spec2Isabelle
  imports Main "HOL-Library.Sublist" "HOL-Library.Word"
begin

section \<open>Strings: the operations of \<open>std::string\<close> the logger uses\<close>

text \<open>
  \<open>std::string::find(t)\<close>: the index of the first occurrence of \<open>t\<close>, \<open>None\<close> for
  \<open>npos\<close>. The empty needle is found at index 0.
\<close>

fun find_str :: "string \<Rightarrow> string \<Rightarrow> nat option" where
  "find_str [] t = (if t = [] then Some 0 else None)"
| "find_str (c # s) t =
     (if prefix t (c # s) then Some 0 else map_option Suc (find_str s t))"

text \<open>
  \<open>std::string::replace(pos, len, v)\<close>, called only with a \<open>pos\<close> that \<open>find\<close>
  returned and the length of the needle, so the range lies inside the string.
\<close>

definition str_replace :: "string \<Rightarrow> nat \<Rightarrow> nat \<Rightarrow> string \<Rightarrow> string" where
  "str_replace s pos len v = take pos s @ v @ drop (pos + len) s"

text \<open>\<open>operator<\<close> on \<open>std::string\<close>: lexicographic on the bytes, read unsigned.\<close>

fun str_less :: "string \<Rightarrow> string \<Rightarrow> bool" where
  "str_less [] [] = False"
| "str_less [] (y # ys) = True"
| "str_less (x # xs) [] = False"
| "str_less (x # xs) (y # ys) =
     (if (of_char x :: nat) < of_char y then True
      else if (of_char y :: nat) < of_char x then False
      else str_less xs ys)"

text \<open>
  \<open>std::map<std::string, std::string>\<close> as the list of its entries in iteration order
  (ascending keys, each key once); \<open>map_set m k v\<close> is \<open>m[k] = v\<close>.
\<close>

fun map_set :: "(string \<times> string) list \<Rightarrow> string \<Rightarrow> string \<Rightarrow> (string \<times> string) list" where
  "map_set [] k v = [(k, v)]"
| "map_set ((k', v') # m) k v =
     (if k = k' then (k, v) # m
      else if str_less k k' then (k, v) # (k', v') # m
      else (k', v') # map_set m k v)"

text \<open>\<open>std::to_string\<close> on integers: decimal digits, a minus sign when negative.\<close>

definition digit_char :: "nat \<Rightarrow> char" where
  "digit_char d = ''0123456789'' ! d"

fun to_string_nat :: "nat \<Rightarrow> string" where
  "to_string_nat n =
     (if n < 10 then [digit_char n] else to_string_nat (n div 10) @ [digit_char (n mod 10)])"

definition to_string_int :: "int \<Rightarrow> string" where
  "to_string_int i = (if i < 0 then CHR ''-'' # to_string_nat (nat (- i)) else to_string_nat (nat i))"

text \<open>\<open>oss << std::hex << std::uppercase << n\<close>: upper-case hexadecimal, no prefix.\<close>

definition hex_char :: "nat \<Rightarrow> char" where
  "hex_char d = ''0123456789ABCDEF'' ! d"

fun to_hex_upper :: "nat \<Rightarrow> string" where
  "to_hex_upper n =
     (if n < 16 then [hex_char n] else to_hex_upper (n div 16) @ [hex_char (n mod 16)])"

section \<open>The log record and the format engine\<close>

text \<open>
  \<open>struct LogData\<close>. \<open>tid\<close> holds the value \<open>std::hash<std::thread::id>\<close> gives for the
  thread, \<open>time\<close> the nanoseconds since the epoch, \<open>fd\<close> the stream as a number;
  \<open>std::size_t\<close> is taken to be 64 bits wide.
\<close>

record LogData =
  log_format :: string
  level :: string
  color :: string
  filename :: string
  funcname :: string
  pid :: int
  tid :: nat
  line :: int
  fd :: nat
  msg_id :: "64 word"
  msg :: string
  time :: int

text \<open>
  The C library's clock rendering depends on the process's time zone, so it is a parameter:
  \<open>strftime_F t\<close> and \<open>strftime_T t\<close> are what \<open>strftime\<close> leaves in the buffer for
  \<open>"%F"\<close> and \<open>"%T"\<close> at \<open>localtime(&t)\<close>.
\<close>

record clock =
  strftime_F :: "int \<Rightarrow> string"
  strftime_T :: "int \<Rightarrow> string"

text \<open>\<open>duration_cast\<close> and \<open>%\<close> round towards zero.\<close>

definition cpp_div :: "int \<Rightarrow> int \<Rightarrow> int" where
  "cpp_div a b = sgn a * sgn b * (\<bar>a\<bar> div \<bar>b\<bar>)"

definition cpp_mod :: "int \<Rightarrow> int \<Rightarrow> int" where
  "cpp_mod a b = sgn a * (\<bar>a\<bar> mod \<bar>b\<bar>)"

definition contains :: "string \<Rightarrow> string \<Rightarrow> bool" where
  "contains s t = (find_str s t \<noteq> None)"

text \<open>The part of \<open>_CreateLogStr\<close> that fills \<open>subs\<close>, statement by statement.\<close>

definition subs_of :: "clock \<Rightarrow> LogData \<Rightarrow> (string \<times> string) list" where
  "subs_of ck d =
    (let f = log_format d;
         m0 = map_set [] ''%(LEVEL)'' (level d);
         m1 = map_set m0 ''%(FILENAME)'' (filename d);
         m2 = map_set m1 ''%(FUNCNAME)'' (funcname d);
         m3 = map_set m2 ''%(MSG)'' (msg d);
         m4 = (if contains f ''%(PID)'' then map_set m3 ''%(PID)'' (to_string_int (pid d)) else m3);
         m5 = (if contains f ''%(TID)'' then map_set m4 ''%(TID)'' (to_hex_upper (tid d)) else m4);
         m6 = (if contains f ''%(DATE)''
               then map_set m5 ''%(DATE)'' (strftime_F ck (cpp_div (time d) 1000000000)) else m5);
         m7 = (if contains f ''%(TIME)''
               then map_set m6 ''%(TIME)''
                      (strftime_T ck (cpp_div (time d) 1000000000) @ ''.'' @
                       to_string_nat (unat (word_of_int (cpp_mod (time d) 1000000000) :: 64 word)))
               else m6);
         m8 = (if contains f ''%(LINE)'' then map_set m7 ''%(LINE)'' (to_string_int (line d)) else m7);
         m9 = (if contains f ''%(MSG_ID)''
               then map_set m8 ''%(MSG_ID)'' (to_string_nat (unat (msg_id d))) else m8)
     in m9)"

text \<open>
  The inner loop \<open>while ((pos = result.find(tok)) != npos) result.replace(pos, |tok|, v)\<close>.
  Every round searches again from index 0, so the loop need not end: the value \<open>None\<close>
  stands for a loop that never returns.
\<close>

partial_function (option) replace_loop :: "string \<Rightarrow> string \<Rightarrow> string \<Rightarrow> string option" where
  "replace_loop tok v result =
     (case find_str result tok of
        None \<Rightarrow> Some result
      | Some pos \<Rightarrow> replace_loop tok v (str_replace result pos (length tok) v))"

declare replace_loop.simps [code]

text \<open>The outer loop \<open>for (const auto& entry : subs)\<close>.\<close>

fun subst_all :: "(string \<times> string) list \<Rightarrow> string \<Rightarrow> string option" where
  "subst_all [] result = Some result"
| "subst_all ((tok, v) # es) result =
     (case replace_loop tok v result of None \<Rightarrow> None | Some r \<Rightarrow> subst_all es r)"

definition CreateLogStr :: "clock \<Rightarrow> LogData \<Rightarrow> string option" where
  "CreateLogStr ck d = subst_all (subs_of ck d) (log_format d)"


text \<open>
  The ten placeholder tokens \<open>_CreateLogStr\<close> knows, and the shape every one of them
  has: a \<open>%\<close> in front and nowhere else, a closing parenthesis at the end and nowhere
  else. \<open>token_shaped\<close> is the reading of "token" used for "unrecognized tokens are left
  verbatim": \<open>%(\<close>, a name without \<open>%\<close> and \<open>)\<close>, then \<open>)\<close>.
\<close>

definition recognized_tokens :: "string list" where
  "recognized_tokens =
     [''%(LEVEL)'', ''%(FILENAME)'', ''%(FUNCNAME)'', ''%(LINE)'', ''%(MSG)'',
      ''%(MSG_ID)'', ''%(PID)'', ''%(TID)'', ''%(DATE)'', ''%(TIME)'']"

definition bracketed :: "string \<Rightarrow> bool" where
  "bracketed u =
     (u \<noteq> [] \<and> hd u = CHR ''%'' \<and> CHR ''%'' \<notin> set (tl u) \<and>
      last u = CHR '')'' \<and> CHR '')'' \<notin> set (butlast u))"

definition token_shaped :: "string \<Rightarrow> bool" where
  "token_shaped u = (bracketed u \<and> take 2 u = ''%('')"

section \<open>Writing a record: the print task\<close>

definition YETI_LRED :: string where "YETI_LRED = CHR 0x1B # ''[1;31m''"
definition YETI_LPURPLE :: string where "YETI_LPURPLE = CHR 0x1B # ''[1;35m''"
definition YETI_YELLOW :: string where "YETI_YELLOW = CHR 0x1B # ''[1;33m''"
definition YETI_LGREEN :: string where "YETI_LGREEN = CHR 0x1B # ''[1;32m''"
definition YETI_WHITE :: string where "YETI_WHITE = CHR 0x1B # ''[1;37m''"
definition YETI_RESET :: string where "YETI_RESET = CHR 0x1B # ''[0m''"

text \<open>
  How a task can fail to write: \<open>_CreateLogStr\<close> does not return, or \<open>fprintf\<close> is
  handed a format whose behaviour the C standard leaves undefined.
\<close>

datatype fault = NeverReturns | UndefinedBehaviour

text \<open>\<open>c_str()\<close> read as a C string: the bytes before the first NUL.\<close>

definition c_str :: "string \<Rightarrow> string" where
  "c_str s = takeWhile (\<lambda>c. c \<noteq> CHR 0x00) s"

text \<open>
  \<open>std::fprintf(fd, fmt)\<close> with no argument after the format (C11 7.21.6.1): ordinary
  bytes are copied, \<open>%%\<close> writes one \<open>%\<close>, and any other conversion specification
  asks for an argument that is not there, which is undefined.
\<close>

fun fprintf_noargs :: "string \<Rightarrow> fault + string" where
  "fprintf_noargs [] = Inr []"
| "fprintf_noargs (c # cs) =
     (if c = CHR ''%'' then
        (case cs of
           [] \<Rightarrow> Inl UndefinedBehaviour
         | c' # rest \<Rightarrow>
             if c' = CHR ''%'' then map_sum id ((#) CHR ''%'') (fprintf_noargs rest)
             else Inl UndefinedBehaviour)
      else map_sum id ((#) c) (fprintf_noargs cs))"

text \<open>
  The closure \<open>print_func\<close> of \<open>_EnqueueLogTask\<close>, with the captured record and colour
  flag as arguments; \<open>isatty\<close> tells which streams are terminals. The result is the bytes
  handed to the stream \<open>fd d\<close>.
\<close>

definition print_func :: "clock \<Rightarrow> (nat \<Rightarrow> bool) \<Rightarrow> LogData \<Rightarrow> bool \<Rightarrow> fault + string" where
  "print_func ck isatty d is_colored =
     (case CreateLogStr ck d of
        None \<Rightarrow> Inl NeverReturns
      | Some r \<Rightarrow>
          (let log_str = r @ [CHR 0x0A];
               log_str' = (if isatty (fd d) \<and> is_colored
                           then color d @ log_str @ YETI_RESET else log_str)
           in fprintf_noargs (c_str log_str')))"

section \<open>The initial level: \<open>Logger::LogLevelFromEnv\<close>\<close>

datatype LogLevel =
  LOG_LEVEL_CRITICAL | LOG_LEVEL_ERROR | LOG_LEVEL_WARNING
| LOG_LEVEL_INFO | LOG_LEVEL_DEBUG | LOG_LEVEL_TRACE

text \<open>
  \<open>std::map<std::vector<std::string>, LogLevel>\<close>: the keys are vectors, ordered by
  \<open>std::lexicographical_compare\<close>; the initializer list is inserted entry by entry and
  an entry whose key is already there is dropped.
\<close>

fun vec_less :: "string list \<Rightarrow> string list \<Rightarrow> bool" where
  "vec_less [] [] = False"
| "vec_less [] (y # ys) = True"
| "vec_less (x # xs) [] = False"
| "vec_less (x # xs) (y # ys) =
     (if str_less x y then True else if str_less y x then False else vec_less xs ys)"

fun dict_insert :: "(string list \<times> LogLevel) list \<Rightarrow> string list \<times> LogLevel \<Rightarrow>
                    (string list \<times> LogLevel) list" where
  "dict_insert [] e = [e]"
| "dict_insert (e' # m) e =
     (if vec_less (fst e) (fst e') then e # e' # m
      else if vec_less (fst e') (fst e) then e' # dict_insert m e
      else e' # m)"

definition level_dict :: "(string list \<times> LogLevel) list" where
  "level_dict = foldl dict_insert []
     [([''TRACE'', ''TRC'', ''trace'', ''trc''], LOG_LEVEL_TRACE),
      ([''DEBUG'', ''DBG'', ''debug'', ''dbg''], LOG_LEVEL_DEBUG),
      ([''INF'', ''inf''], LOG_LEVEL_INFO),
      ([''WARN'', ''WRN'', ''warn'', ''wrn''], LOG_LEVEL_WARNING),
      ([''ERR'', ''err''], LOG_LEVEL_ERROR),
      ([''CRIT'', ''CRT'', ''crit'', ''crt''], LOG_LEVEL_CRITICAL)]"

text \<open>\<open>var\<close> is \<open>None\<close> for the null pointer \<open>getenv\<close> returns for an unset variable.\<close>

definition LogLevelFromEnv :: "string option \<Rightarrow> LogLevel" where
  "LogLevelFromEnv var =
     (case var of
        None \<Rightarrow> LOG_LEVEL_INFO
      | Some env_str \<Rightarrow>
          (case find (\<lambda>p. find (\<lambda>s. find_str env_str s \<noteq> None) (fst p) \<noteq> None) level_dict of
             Some p \<Rightarrow> snd p
           | None \<Rightarrow> LOG_LEVEL_INFO))"

text \<open>
  The claim's reading, for comparison: a match that ignores case. \<open>ci_matches e\<close> lists
  the levels one of whose tokens occurs in \<open>e\<close> when upper and lower case are identified.
\<close>

definition to_upper :: "char \<Rightarrow> char" where
  "to_upper c =
     (case map_of (zip ''abcdefghijklmnopqrstuvwxyz'' ''ABCDEFGHIJKLMNOPQRSTUVWXYZ'') c of
        Some u \<Rightarrow> u
      | None \<Rightarrow> c)"

definition ci_contains :: "string \<Rightarrow> string \<Rightarrow> bool" where
  "ci_contains s t = contains (map to_upper s) (map to_upper t)"

definition ci_matches :: "string \<Rightarrow> LogLevel list" where
  "ci_matches e = map snd (filter (\<lambda>p. list_ex (ci_contains e) (fst p)) level_dict)"


section \<open>The logger object and the call-site macros\<close>

text \<open>
  A task in the queue is a closure; the two the repository builds are \<open>print_func\<close>
  (capturing the record and the colour flag) and \<open>close_func\<close> (capturing a stream).
\<close>

datatype task = PrintTask LogData bool | CloseTask nat

text \<open>
  The data members of \<open>class Logger\<close>, as the constructor initialises them; member
  \<open>queue_\<close> is field \<open>queue_m\<close>, and so on (a name cannot end in an underscore here).
\<close>

record Logger =
  stop_loop_m :: bool
  is_colored_m :: bool
  level_m :: LogLevel
  msg_id_m :: "64 word"
  format_str_m :: string
  fd_m :: nat
  queue_m :: "task list"
  exec_list_m :: "task list"

definition stderr_fd :: nat where "stderr_fd = 2"

definition Logger_ctor :: "string option \<Rightarrow> Logger" where
  "Logger_ctor env =
     \<lparr>stop_loop_m = False, is_colored_m = True, level_m = LogLevelFromEnv env, msg_id_m = 0,
      format_str_m = ''[%(LEVEL)] %(FILENAME): %(LINE): %(MSG)'', fd_m = stderr_fd,
      queue_m = [], exec_list_m = []\<rparr>"

definition EnqueueTask :: "task \<Rightarrow> 'a Logger_scheme \<Rightarrow> 'a Logger_scheme" where
  "EnqueueTask queue_func L = L\<lparr>queue_m := queue_m L @ [queue_func]\<rparr>"

definition GetFormatStr :: "'a Logger_scheme \<Rightarrow> string" where
  "GetFormatStr L = format_str_m L"

text \<open>
  The inline accessors of \<open>class Logger\<close> are declared in \<open>src/logger.h\<close>, which is
  not among the sources; the five the macros and \<open>_EnqueueLogTask\<close> call follow.
\<close>

text \<open>
  Modelled from the spec: \<open>Logger::GetLevel\<close> (in the absent \<open>src/logger.h\<close>) reads the
  logger state's "current minimum level".
\<close>

definition GetLevel :: "'a Logger_scheme \<Rightarrow> LogLevel" where
  "GetLevel L = level_m L"

text \<open>
  Modelled from the spec: \<open>Logger::IsColored\<close> (in the absent \<open>src/logger.h\<close>) reads the
  logger state's "color-enabled flag".
\<close>

definition IsColored :: "'a Logger_scheme \<Rightarrow> bool" where
  "IsColored L = is_colored_m L"

text \<open>
  Modelled from the spec: \<open>Logger::GetFileDesc\<close> (in the absent \<open>src/logger.h\<close>) reads
  the logger state's "output stream handle".
\<close>

definition GetFileDesc :: "'a Logger_scheme \<Rightarrow> nat" where
  "GetFileDesc L = fd_m L"

text \<open>
  Modelled from the spec: \<open>Logger::GetMsgId\<close> (in the absent \<open>src/logger.h\<close>) reads the
  "running message-id counter", which is "readable without locking".
\<close>

definition GetMsgId :: "'a Logger_scheme \<Rightarrow> 64 word" where
  "GetMsgId L = msg_id_m L"

text \<open>
  Modelled from the spec: \<open>Logger::IncMsgId\<close> (in the absent \<open>src/logger.h\<close>) is the
  "atomic increment" of the message-id counter, one access that adds one; the counter is a
  \<open>std::size_t\<close>, so the addition is modulo \<open>2^64\<close>.
\<close>

definition IncMsgId :: "'a Logger_scheme \<Rightarrow> 'a Logger_scheme" where
  "IncMsgId L = L\<lparr>msg_id_m := msg_id_m L + 1\<rparr>"

text \<open>
  What a call brings from outside the logger: the clock, the process and the thread
  (\<open>caller\<close>), and the macro's arguments after expansion (\<open>call_site\<close>), \<open>cs_text\<close>
  being the text \<open>snprintf\<close> formats, before it is cut to the buffer.
\<close>

record caller =
  now :: int
  getpid :: int
  this_thread :: nat

record call_site =
  cs_file :: string
  cs_func :: string
  cs_line :: int
  cs_text :: string

definition MAX_MSG_LENGTH :: nat where "MAX_MSG_LENGTH = 512"

text \<open>\<open>std::make_shared<yeti::LogData>()\<close>: every member value-initialised.\<close>

definition LogData_new :: LogData where
  "LogData_new =
     \<lparr>log_format = [], level = [], color = [], filename = [], funcname = [], pid = 0,
      tid = 0, line = 0, fd = 0, msg_id = 0, msg = [], time = 0\<rparr>"

definition EnqueueLogTask :: "caller \<Rightarrow> LogData \<Rightarrow> 'a Logger_scheme \<Rightarrow> 'a Logger_scheme" where
  "EnqueueLogTask c log_data L =
     (let d = log_data\<lparr>log_format := GetFormatStr L, time := now c, pid := getpid c,
                       tid := this_thread c, fd := GetFileDesc L\<rparr>;
          is_colored = IsColored L
      in EnqueueTask (PrintTask d is_colored) L)"

text \<open>
  The macros. The numeric values of the enumerators of \<open>enum LogLevel\<close> are declared
  in \<open>yeti/yeti.h\<close>, which is not among the sources, so they are a parameter \<open>ev\<close>.
  \<open>snprintf\<close> into the zeroed buffer of \<open>MAX_MSG_LENGTH\<close> bytes keeps that many
  characters less one, and the assignment of the buffer to the \<open>std::string\<close>
  \<open>msg\<close> reads it as a C string, up to its first NUL. \<open>CRT\<close> enqueues without
  looking at the level.
\<close>

definition CRT_macro :: "caller \<Rightarrow> call_site \<Rightarrow> 'a Logger_scheme \<Rightarrow> 'a Logger_scheme" where
  "CRT_macro c cs L =
     (let yeti_data = LogData_new\<lparr>level := ''CRT'', color := YETI_LRED,
            filename := cs_file cs, funcname := cs_func cs, line := cs_line cs,
            msg_id := GetMsgId L\<rparr>;
          L1 = IncMsgId L;
          yeti_msg = c_str (take (MAX_MSG_LENGTH - 1) (cs_text cs))
      in EnqueueLogTask c (yeti_data\<lparr>msg := yeti_msg\<rparr>) L1)"

definition ERR_macro ::
  "(LogLevel \<Rightarrow> int) \<Rightarrow> caller \<Rightarrow> call_site \<Rightarrow> 'a Logger_scheme \<Rightarrow> 'a Logger_scheme" where
  "ERR_macro ev c cs L =
     (let yeti_msg_id = GetMsgId L;
          L1 = IncMsgId L
      in if ev (GetLevel L1) \<ge> ev LOG_LEVEL_ERROR
         then
           (let yeti_data = LogData_new\<lparr>level := ''ERR'', color := YETI_LPURPLE,
                  filename := cs_file cs, funcname := cs_func cs, line := cs_line cs,
                  msg_id := yeti_msg_id\<rparr>;
                yeti_msg = c_str (take (MAX_MSG_LENGTH - 1) (cs_text cs))
            in EnqueueLogTask c (yeti_data\<lparr>msg := yeti_msg\<rparr>) L1)
         else L1)"

definition WRN_macro ::
  "(LogLevel \<Rightarrow> int) \<Rightarrow> caller \<Rightarrow> call_site \<Rightarrow> 'a Logger_scheme \<Rightarrow> 'a Logger_scheme" where
  "WRN_macro ev c cs L =
     (let yeti_msg_id = GetMsgId L;
          L1 = IncMsgId L
      in if ev (GetLevel L1) \<ge> ev LOG_LEVEL_WARNING
         then
           (let yeti_data = LogData_new\<lparr>level := ''WRN'', color := YETI_YELLOW,
                  filename := cs_file cs, funcname := cs_func cs, line := cs_line cs,
                  msg_id := yeti_msg_id\<rparr>;
                yeti_msg = c_str (take (MAX_MSG_LENGTH - 1) (cs_text cs))
            in EnqueueLogTask c (yeti_data\<lparr>msg := yeti_msg\<rparr>) L1)
         else L1)"

definition INF_macro ::
  "(LogLevel \<Rightarrow> int) \<Rightarrow> caller \<Rightarrow> call_site \<Rightarrow> 'a Logger_scheme \<Rightarrow> 'a Logger_scheme" where
  "INF_macro ev c cs L =
     (let yeti_msg_id = GetMsgId L;
          L1 = IncMsgId L
      in if ev (GetLevel L1) \<ge> ev LOG_LEVEL_INFO
         then
           (let yeti_data = LogData_new\<lparr>level := ''INF'', color := YETI_LGREEN,
                  filename := cs_file cs, funcname := cs_func cs, line := cs_line cs,
                  msg_id := yeti_msg_id\<rparr>;
                yeti_msg = c_str (take (MAX_MSG_LENGTH - 1) (cs_text cs))
            in EnqueueLogTask c (yeti_data\<lparr>msg := yeti_msg\<rparr>) L1)
         else L1)"

definition DBG_macro ::
  "(LogLevel \<Rightarrow> int) \<Rightarrow> caller \<Rightarrow> call_site \<Rightarrow> 'a Logger_scheme \<Rightarrow> 'a Logger_scheme" where
  "DBG_macro ev c cs L =
     (let yeti_msg_id = GetMsgId L;
          L1 = IncMsgId L
      in if ev (GetLevel L1) \<ge> ev LOG_LEVEL_DEBUG
         then
           (let yeti_data = LogData_new\<lparr>level := ''DBG'', color := YETI_WHITE,
                  filename := cs_file cs, funcname := cs_func cs, line := cs_line cs,
                  msg_id := yeti_msg_id\<rparr>;
                yeti_msg = c_str (take (MAX_MSG_LENGTH - 1) (cs_text cs))
            in EnqueueLogTask c (yeti_data\<lparr>msg := yeti_msg\<rparr>) L1)
         else L1)"

definition TRC_macro ::
  "(LogLevel \<Rightarrow> int) \<Rightarrow> caller \<Rightarrow> call_site \<Rightarrow> 'a Logger_scheme \<Rightarrow> 'a Logger_scheme" where
  "TRC_macro ev c cs L =
     (let yeti_msg_id = GetMsgId L;
          L1 = IncMsgId L
      in if ev (GetLevel L1) \<ge> ev LOG_LEVEL_TRACE
         then
           (let yeti_data = LogData_new\<lparr>level := ''TRC'', color := [],
                  filename := cs_file cs, funcname := cs_func cs, line := cs_line cs,
                  msg_id := yeti_msg_id\<rparr>;
                yeti_msg = c_str (take (MAX_MSG_LENGTH - 1) (cs_text cs))
            in EnqueueLogTask c (yeti_data\<lparr>msg := yeti_msg\<rparr>) L1)
         else L1)"

text \<open>The six macros by name, for statements about every call site.\<close>

datatype macro = CRT | ERR | WRN | INFm | DBG | TRC

fun expand ::
  "(LogLevel \<Rightarrow> int) \<Rightarrow> macro \<Rightarrow> caller \<Rightarrow> call_site \<Rightarrow> 'a Logger_scheme \<Rightarrow> 'a Logger_scheme" where
  "expand ev CRT = CRT_macro"
| "expand ev ERR = ERR_macro ev"
| "expand ev WRN = WRN_macro ev"
| "expand ev INFm = INF_macro ev"
| "expand ev DBG = DBG_macro ev"
| "expand ev TRC = TRC_macro ev"

fun macro_level :: "macro \<Rightarrow> LogLevel" where
  "macro_level CRT = LOG_LEVEL_CRITICAL"
| "macro_level ERR = LOG_LEVEL_ERROR"
| "macro_level WRN = LOG_LEVEL_WARNING"
| "macro_level INFm = LOG_LEVEL_INFO"
| "macro_level DBG = LOG_LEVEL_DEBUG"
| "macro_level TRC = LOG_LEVEL_TRACE"

text \<open>
  Modelled from the spec: the order of the levels, "TRACE < DEBUG < INFO < WARNING < ERROR <
  CRITICAL" (the enumerators of \<open>enum LogLevel\<close> are declared in \<open>yeti/yeti.h\<close>, which
  is not among the sources).
\<close>

fun severity :: "LogLevel \<Rightarrow> nat" where
  "severity LOG_LEVEL_TRACE = 0"
| "severity LOG_LEVEL_DEBUG = 1"
| "severity LOG_LEVEL_INFO = 2"
| "severity LOG_LEVEL_WARNING = 3"
| "severity LOG_LEVEL_ERROR = 4"
| "severity LOG_LEVEL_CRITICAL = 5"

text \<open>
  The condition on the absent enumerators under which the macros' comparison
  \<open>GetLogLevel() >= LOG_LEVEL_X\<close> follows that order: they count the levels from the most
  severe.
\<close>

definition counts_from_critical :: "(LogLevel \<Rightarrow> int) \<Rightarrow> bool" where
  "counts_from_critical ev =
     (ev LOG_LEVEL_CRITICAL < ev LOG_LEVEL_ERROR \<and> ev LOG_LEVEL_ERROR < ev LOG_LEVEL_WARNING \<and>
      ev LOG_LEVEL_WARNING < ev LOG_LEVEL_INFO \<and> ev LOG_LEVEL_INFO < ev LOG_LEVEL_DEBUG \<and>
      ev LOG_LEVEL_DEBUG < ev LOG_LEVEL_TRACE)"

text \<open>The values a C++ \<open>enum\<close> gets when the enumerators are listed from CRITICAL to TRACE.\<close>

fun enum_from_critical :: "LogLevel \<Rightarrow> int" where
  "enum_from_critical LOG_LEVEL_CRITICAL = 0"
| "enum_from_critical LOG_LEVEL_ERROR = 1"
| "enum_from_critical LOG_LEVEL_WARNING = 2"
| "enum_from_critical LOG_LEVEL_INFO = 3"
| "enum_from_critical LOG_LEVEL_DEBUG = 4"
| "enum_from_critical LOG_LEVEL_TRACE = 5"


section \<open>Message ids under concurrent callers\<close>

text \<open>
  Every macro starts with two calls, \<open>_GetMsgId()\<close> and then \<open>_IncMsgId()\<close>, each of
  them one access to the shared counter. A thread is between the two when its local
  \<open>__yeti_msg_id__\<close> is set; \<open>issued\<close> lists the ids its finished calls got. A schedule
  is the list of the threads in the order in which they take their next step.
\<close>

record thread_st =
  yeti_msg_id :: "64 word option"
  issued :: "64 word list"

definition thread_new :: thread_st where
  "thread_new = \<lparr>yeti_msg_id = None, issued = []\<rparr>"

definition id_step :: "nat \<Rightarrow> Logger \<times> (nat \<Rightarrow> thread_st) \<Rightarrow> Logger \<times> (nat \<Rightarrow> thread_st)" where
  "id_step t st =
     (case st of (L, ths) \<Rightarrow>
        (case yeti_msg_id (ths t) of
           None \<Rightarrow> (L, ths(t := (ths t)\<lparr>yeti_msg_id := Some (GetMsgId L)\<rparr>))
         | Some i \<Rightarrow>
             (IncMsgId L, ths(t := \<lparr>yeti_msg_id = None, issued = issued (ths t) @ [i]\<rparr>))))"

definition id_run :: "nat list \<Rightarrow> Logger \<times> (nat \<Rightarrow> thread_st) \<Rightarrow> Logger \<times> (nat \<Rightarrow> thread_st)" where
  "id_run sched st = foldl (\<lambda>st t. id_step t st) st sched"

section \<open>The pipeline: producers, the worker, \<open>Flush\<close> and \<open>Shutdown\<close>\<close>

text \<open>
  The threads interleave at the granularity the mutexes give: a step is one critical
  section of \<open>queue_mutex_\<close> or \<open>exec_list_mutex_\<close>, or one access to \<open>stop_loop_\<close>
  (taken to be atomic; its declaration is in the absent \<open>src/logger.h\<close>). The worker is at
  one of five places of \<open>ProcessingLoop\<close>: in \<open>cv_.wait\<close>; in the execution loop,
  holding \<open>exec_list_mutex_\<close>; at the two reads of the loop condition
  \<open>!stop_loop_ || !IsQueueEmpty()\<close>; or returned. A thread in \<open>Flush\<close> is at one
  of the two reads of \<open>!IsQueueEmpty() || !IsExecListEmpty()\<close>.
  \<open>executed\<close> records the tasks the worker has run, in order. Notifications are not
  part of the state: the worker may leave the wait at any step at which the wait's
  predicate holds, and a schedule in which it does so late covers a notification that
  came late or was missed.
\<close>

datatype worker_pc = Waiting | Executing | CheckStop | CheckQueue | Terminated

datatype flush_pc = NotInFlush | FlushCheckQueue | FlushCheckExec | FlushReturned

record System = Logger +
  worker :: worker_pc
  flusher :: flush_pc
  executed :: "task list"

text \<open>
  One step of the worker. Leaving the wait needs its predicate; the drain that follows
  runs with \<open>queue_mutex_\<close> still held, so the two are one step.
\<close>

definition ProcessingLoop_step :: "System \<Rightarrow> System" where
  "ProcessingLoop_step s =
     (case worker s of
        Waiting \<Rightarrow>
          if queue_m s \<noteq> [] \<or> stop_loop_m s
          then s\<lparr>exec_list_m := exec_list_m s @ queue_m s, queue_m := [], worker := Executing\<rparr>
          else s
      | Executing \<Rightarrow>
          (case exec_list_m s of
             [] \<Rightarrow> s\<lparr>worker := CheckStop\<rparr>
           | t # ts \<Rightarrow> s\<lparr>executed := executed s @ [t], exec_list_m := ts\<rparr>)
      | CheckStop \<Rightarrow> if \<not> stop_loop_m s then s\<lparr>worker := Waiting\<rparr> else s\<lparr>worker := CheckQueue\<rparr>
      | CheckQueue \<Rightarrow> if queue_m s \<noteq> [] then s\<lparr>worker := Waiting\<rparr> else s\<lparr>worker := Terminated\<rparr>
      | Terminated \<Rightarrow> s)"

text \<open>
  One read of the condition of \<open>Flush\<close>. \<open>IsExecListEmpty\<close> takes \<open>exec_list_mutex_\<close>,
  which the worker holds while it executes, so that read waits.
\<close>

definition Flush_step :: "System \<Rightarrow> System" where
  "Flush_step s =
     (case flusher s of
        FlushCheckQueue \<Rightarrow> if queue_m s \<noteq> [] then s else s\<lparr>flusher := FlushCheckExec\<rparr>
      | FlushCheckExec \<Rightarrow>
          if worker s = Executing then s
          else if exec_list_m s \<noteq> [] then s\<lparr>flusher := FlushCheckQueue\<rparr>
          else s\<lparr>flusher := FlushReturned\<rparr>
      | NotInFlush \<Rightarrow> s
      | FlushReturned \<Rightarrow> s)"

text \<open>
  \<open>Enqueue\<close> is a call of \<open>EnqueueTask\<close> by any thread, \<open>ShutdownCall\<close> the first
  statement of \<open>Shutdown\<close> (which then joins the worker), \<open>FlushCall\<close> the entry
  into \<open>Flush\<close>.
\<close>

datatype event = Enqueue task | ShutdownCall | WorkerStep | FlushCall | FlushPoll

fun step :: "event \<Rightarrow> System \<Rightarrow> System" where
  "step (Enqueue t) s = EnqueueTask t s"
| "step ShutdownCall s = s\<lparr>stop_loop_m := True\<rparr>"
| "step WorkerStep s = ProcessingLoop_step s"
| "step FlushCall s = s\<lparr>flusher := FlushCheckQueue\<rparr>"
| "step FlushPoll s = Flush_step s"

definition run :: "event list \<Rightarrow> System \<Rightarrow> System" where
  "run evs s = foldl (\<lambda>s e. step e s) s evs"

fun enqueued :: "event list \<Rightarrow> task list" where
  "enqueued [] = []"
| "enqueued (Enqueue t # evs) = t # enqueued evs"
| "enqueued (e # evs) = enqueued evs"

text \<open>The system once the constructor has run: the worker started, nothing queued.\<close>

definition boot :: "string option \<Rightarrow> System" where
  "boot env = Logger.extend (Logger_ctor env) (System.fields Waiting NotInFlush [])"


section \<open>Sample inputs\<close>

text \<open>
  A clock and a record as \<open>INF("started")\<close> at \<open>main.cc:7\<close> leaves it in the queue
  under the default settings; the examples below vary its template and message.
\<close>

definition example_clock :: clock where
  "example_clock = \<lparr>strftime_F = (\<lambda>_. ''2014-01-01''), strftime_T = (\<lambda>_. ''00:00:00'')\<rparr>"

definition example_record :: LogData where
  "example_record =
     \<lparr>log_format = ''[%(LEVEL)] %(FILENAME): %(LINE): %(MSG)'', level = ''INF'',
      color = YETI_LGREEN, filename = ''main.cc'', funcname = ''main'', pid = 42, tid = 255,
      line = 7, fd = 2, msg_id = 3, msg = ''started'', time = 1500000000123456789\<rparr>"

definition example_caller :: caller where
  "example_caller = \<lparr>now = 1500000000123456789, getpid = 42, this_thread = 255\<rparr>"

definition example_site :: call_site where
  "example_site = \<lparr>cs_file = ''main.cc'', cs_func = ''main'', cs_line = 7, cs_text = ''started''\<rparr>"

definition example_task1 :: task where
  "example_task1 = PrintTask (example_record\<lparr>msg := ''first''\<rparr>) True"

definition example_task2 :: task where
  "example_task2 = PrintTask (example_record\<lparr>msg := ''second''\<rparr>) True"

section \<open>Invariants of the pipeline\<close>

text \<open>
  \<open>lock_inv\<close>: the execution list is empty whenever the worker is outside its execution
  loop, and the worker is past the read of \<open>stop_loop_\<close> only when the flag is set.
  \<open>flush_inv pend\<close> and \<open>stop_inv pend\<close> follow a list \<open>pend\<close> of tasks through the
  pipeline: they are at the front of everything enqueued so far; once \<open>Flush\<close> has seen
  the queue empty they are not in the queue any more; once \<open>Flush\<close> has returned, or the
  worker has, they have run.
\<close>

definition lock_inv :: "System \<Rightarrow> bool" where
  "lock_inv s =
     ((worker s \<noteq> Executing \<longrightarrow> exec_list_m s = []) \<and>
      (worker s = CheckQueue \<or> worker s = Terminated \<longrightarrow> stop_loop_m s))"

definition flush_inv :: "task list \<Rightarrow> System \<Rightarrow> bool" where
  "flush_inv pend s =
     (prefix pend (executed s @ exec_list_m s @ queue_m s) \<and>
      (flusher s = FlushCheckExec \<longrightarrow> prefix pend (executed s @ exec_list_m s)) \<and>
      (flusher s = FlushReturned \<longrightarrow> prefix pend (executed s)))"

definition stop_inv :: "task list \<Rightarrow> System \<Rightarrow> bool" where
  "stop_inv pend s =
     (prefix pend (executed s @ exec_list_m s @ queue_m s) \<and>
      (worker s = Terminated \<longrightarrow> prefix pend (executed s)))"

section \<open>Properties of the string operations\<close>

lemma find_str_None_iff: "find_str s t = None \<longleftrightarrow> \<not> (\<exists>A B. s = A @ t @ B)"
proof (induction s)
  case Nil
  then show ?case by auto
next
  case (Cons c s)
  show ?case
  proof (cases "prefix t (c # s)")
    case True
    then obtain B where "c # s = t @ B" by (auto simp: prefix_def)
    then have "c # s = [] @ t @ B" by simp
    with True show ?thesis by (metis find_str.simps(2) option.distinct(1))
  next
    case False
    have "(\<exists>A B. c # s = A @ t @ B) \<longleftrightarrow> (\<exists>A B. s = A @ t @ B)"
    proof
      assume "\<exists>A B. c # s = A @ t @ B"
      then obtain A B where ab: "c # s = A @ t @ B" by blast
      show "\<exists>A B. s = A @ t @ B"
      proof (cases A)
        case Nil
        with ab have "prefix t (c # s)" by (simp add: prefix_def)
        with False show ?thesis by simp
      next
        case (Cons a A')
        with ab have "s = A' @ t @ B" by simp
        then show ?thesis by blast
      qed
    next
      assume "\<exists>A B. s = A @ t @ B"
      then obtain A B where "s = A @ t @ B" by blast
      then have "c # s = (c # A) @ t @ B" by simp
      then show "\<exists>A B. c # s = A @ t @ B" by blast
    qed
    with False Cons show ?thesis by simp
  qed
qed

lemma find_str_Some: "find_str s t = Some p \<Longrightarrow> \<exists>Q. s = take p s @ t @ Q \<and> p \<le> length s"
proof (induction s arbitrary: p)
  case Nil
  then show ?case by (auto split: if_splits)
next
  case (Cons c s)
  show ?case
  proof (cases "prefix t (c # s)")
    case True
    with Cons.prems have "p = 0" by simp
    with True show ?thesis by (auto simp: prefix_def)
  next
    case False
    with Cons.prems obtain q where q: "find_str s t = Some q" "p = Suc q" by auto
    from Cons.IH[OF q(1)] obtain Q where "s = take q s @ t @ Q" "q \<le> length s" by blast
    with q show ?thesis by auto
  qed
qed

lemma contains_iff: "contains s t \<longleftrightarrow> (\<exists>A B. s = A @ t @ B)"
  using find_str_None_iff[of s t] by (simp add: contains_def)

text \<open>
  Two occurrences of strings that carry \<open>%\<close> only in front and \<open>)\<close> only at the end
  cannot overlap: they are apart, or they are the same string at the same place.
\<close>

lemma overlap_left:
  assumes U: "bracketed U" and R: "bracketed R"
    and eq: "A @ U @ B = P @ R @ Q" and lt: "length A < length P"
  shows "length A + length U \<le> length P"
proof (rule ccontr)
  assume "\<not> ?thesis"
  then have in_U: "length P - length A < length U" and pos: "0 < length P - length A" using lt by auto
  have "(A @ U @ B) ! length P = U ! (length P - length A)"
    using lt in_U by (simp add: nth_append)
  moreover have "(P @ R @ Q) ! length P = hd R"
    using R by (cases R) (auto simp: bracketed_def nth_append)
  ultimately have "U ! (length P - length A) = CHR ''%''" using eq R by (simp add: bracketed_def)
  moreover have "U ! (length P - length A) \<in> set (tl U)"
    using in_U pos by (cases U) (auto simp: nth_Cons')
  ultimately show False using U by (simp add: bracketed_def)
qed

lemma overlap_same:
  assumes U: "bracketed U" and R: "bracketed R"
    and eq: "U @ B = R @ Q" and le: "length U \<le> length R"
  shows "U = R"
proof (rule ccontr)
  assume ne: "U \<noteq> R"
  have "length U \<noteq> length R"
  proof
    assume "length U = length R"
    with eq have "U = R" by simp
    with ne show False by simp
  qed
  with le have lt: "length U < length R" by simp
  have Une: "U \<noteq> []" using U by (simp add: bracketed_def)
  then have l: "length U - 1 < length U" by (cases U) auto
  have "(U @ B) ! (length U - 1) = last U" using Une l by (simp add: nth_append last_conv_nth)
  moreover have "(R @ Q) ! (length U - 1) = butlast R ! (length U - 1)"
    using lt l by (simp add: nth_append nth_butlast)
  moreover have "butlast R ! (length U - 1) \<in> set (butlast R)"
    using lt l by (intro nth_mem) simp
  ultimately show False using eq U R by (simp add: bracketed_def)
qed

lemma no_overlap:
  assumes U: "bracketed U" and R: "bracketed R" and ne: "U \<noteq> R"
    and eq: "A @ U @ B = P @ R @ Q"
  shows "length A + length U \<le> length P \<or> length P + length R \<le> length A"
proof -
  consider "length A < length P" | "length P < length A" | "length A = length P" by linarith
  then show ?thesis
  proof cases
    case 1
    with overlap_left[OF U R eq] show ?thesis by simp
  next
    case 2
    with overlap_left[OF R U eq[symmetric]] show ?thesis by simp
  next
    case 3
    with eq have e: "U @ B = R @ Q" by simp
    have "U = R"
    proof (cases "length U \<le> length R")
      case True
      from overlap_same[OF U R e True] show ?thesis .
    next
      case False
      then have "length R \<le> length U" by simp
      from overlap_same[OF R U e[symmetric] this] show ?thesis by simp
    qed
    with ne show ?thesis by simp
  qed
qed

lemma contains_replace:
  assumes U: "bracketed U" and R: "bracketed R" and ne: "U \<noteq> R"
    and f: "find_str s R = Some p" and occ: "contains s U"
  shows "contains (str_replace s p (length R) v) U"
proof -
  from find_str_Some[OF f] obtain Q where s: "s = take p s @ R @ Q" and p: "p \<le> length s" by blast
  from occ obtain A B where ab: "s = A @ U @ B" by (auto simp: contains_iff)
  define P where "P = take p s"
  have lenP: "length P = p" using p by (simp add: P_def)
  have sPQ: "s = P @ R @ Q" using s by (simp only: P_def)
  have "drop (p + length R) s = drop (p + length R) (P @ R @ Q)" by (simp only: sPQ[symmetric])
  then have Q: "drop (p + length R) s = Q" using lenP by simp
  have sr: "str_replace s p (length R) v = P @ v @ Q"
    by (simp only: str_replace_def Q P_def[symmetric])
  have eq: "A @ U @ B = P @ R @ Q" by (simp only: sPQ[symmetric] ab[symmetric])
  from no_overlap[OF U R ne eq] lenP
  have "length A + length U \<le> p \<or> p + length R \<le> length A" by simp
  then show ?thesis
  proof
    assume h: "length A + length U \<le> p"
    have "P = take p (A @ U @ B)" by (simp only: P_def ab[symmetric])
    also have "\<dots> = A @ U @ take (p - length A - length U) B" using h by simp
    finally have "P @ v @ Q = A @ U @ (take (p - length A - length U) B @ v @ Q)" by simp
    then show ?thesis unfolding contains_iff sr by blast
  next
    assume h: "p + length R \<le> length A"
    have "Q = drop (p + length R) (A @ U @ B)" by (simp only: Q[symmetric] ab[symmetric])
    also have "\<dots> = drop (p + length R) A @ U @ B" using h by simp
    finally have "P @ v @ Q = (P @ v @ drop (p + length R) A) @ U @ B" by simp
    then show ?thesis unfolding contains_iff sr by blast
  qed
qed

lemma replace_loop_keeps:
  assumes U: "bracketed U" and ret: "replace_loop R v s = Some r"
  shows "bracketed R \<and> U \<noteq> R \<and> contains s U \<longrightarrow> contains r U"
proof (rule replace_loop.raw_induct
    [where P = "\<lambda>tok v s r. bracketed tok \<and> U \<noteq> tok \<and> contains s U \<longrightarrow> contains r U", OF _ ret])
  fix rl tok v result y
  assume IH: "\<And>tok v result y. rl tok v result = Some y \<Longrightarrow>
                 bracketed tok \<and> U \<noteq> tok \<and> contains result U \<longrightarrow> contains y U"
    and body: "(case find_str result tok of None \<Rightarrow> Some result
               | Some pos \<Rightarrow> rl tok v (str_replace result pos (length tok) v)) = Some y"
  show "bracketed tok \<and> U \<noteq> tok \<and> contains result U \<longrightarrow> contains y U"
  proof (intro impI, elim conjE)
    assume R: "bracketed tok" and ne: "U \<noteq> tok" and occ: "contains result U"
    show "contains y U"
    proof (cases "find_str result tok")
      case None
      with body occ show ?thesis by simp
    next
      case (Some pos)
      with body have "rl tok v (str_replace result pos (length tok) v) = Some y" by simp
      from IH[OF this] contains_replace[OF U R ne Some occ] R ne show ?thesis by blast
    qed
  qed
qed


section \<open>The format engine\<close>

lemma replace_loop_absent: "\<not> contains s k \<Longrightarrow> replace_loop k v s = Some s"
  by (subst replace_loop.simps) (simp add: contains_def)

lemma replace_loop_found:
  "find_str s k = Some p \<Longrightarrow> replace_loop k v s = replace_loop k v (str_replace s p (length k) v)"
  by (subst replace_loop.simps) simp

lemma subst_all_absent: "(\<forall>e\<in>set es. \<not> contains s (fst e)) \<Longrightarrow> subst_all es s = Some s"
  by (induction es) (auto simp: replace_loop_absent)

lemma map_set_entries: "set (map_set m k v) \<subseteq> insert (k, v) (set m)"
  by (induction m) (auto split: if_splits)

lemma map_set_keys: "fst ` set (map_set m k v) \<subseteq> insert k (fst ` set m)"
  using map_set_entries[of m k v] by force

lemma map_set_recognized:
  "fst ` set m \<subseteq> set recognized_tokens \<Longrightarrow> k \<in> set recognized_tokens \<Longrightarrow>
   fst ` set (map_set m k v) \<subseteq> set recognized_tokens"
  using map_set_keys[of m k v] by blast

lemma map_set_recognized_if:
  "fst ` set m \<subseteq> set recognized_tokens \<Longrightarrow> k \<in> set recognized_tokens \<Longrightarrow>
   fst ` set (if c then map_set m k v else m) \<subseteq> set recognized_tokens"
  using map_set_recognized[of m k v] by simp

lemma subs_of_keys: "fst ` set (subs_of ck d) \<subseteq> set recognized_tokens"
proof -
  have r: "''%(LEVEL)'' \<in> set recognized_tokens" "''%(FILENAME)'' \<in> set recognized_tokens"
    "''%(FUNCNAME)'' \<in> set recognized_tokens" "''%(MSG)'' \<in> set recognized_tokens"
    "''%(PID)'' \<in> set recognized_tokens" "''%(TID)'' \<in> set recognized_tokens"
    "''%(DATE)'' \<in> set recognized_tokens" "''%(TIME)'' \<in> set recognized_tokens"
    "''%(LINE)'' \<in> set recognized_tokens" "''%(MSG_ID)'' \<in> set recognized_tokens"
    by (simp_all add: recognized_tokens_def)
  have e: "fst ` set ([] :: (string \<times> string) list) \<subseteq> set recognized_tokens" by simp
  show ?thesis
    unfolding subs_of_def Let_def
    by (intro map_set_recognized_if map_set_recognized r e)
qed

lemma recognized_bracketed: "t \<in> set recognized_tokens \<Longrightarrow> bracketed t"
  by (auto simp: recognized_tokens_def bracketed_def)

lemma subst_all_keeps:
  assumes U: "bracketed U"
  shows "(\<forall>e\<in>set es. bracketed (fst e) \<and> fst e \<noteq> U) \<Longrightarrow> contains s U \<Longrightarrow>
         subst_all es s = Some out \<Longrightarrow> contains out U"
proof (induction es arbitrary: s)
  case Nil
  then show ?case by simp
next
  case (Cons e es)
  obtain k v where e: "e = (k, v)" by (cases e)
  from Cons.prems(3) e obtain r where r: "replace_loop k v s = Some r" and rest: "subst_all es r = Some out"
    by (auto split: option.splits)
  from Cons.prems(1) e have k: "bracketed k" "U \<noteq> k" by auto
  from replace_loop_keeps[OF U r] k Cons.prems(2) have "contains r U" by blast
  with Cons.IH[of r] Cons.prems(1) rest show ?case by simp
qed

lemma replace_loop_once:
  "find_str s k = Some p \<Longrightarrow> \<not> contains (str_replace s p (length k) v) k \<Longrightarrow>
   replace_loop k v s = Some (str_replace s p (length k) v)"
  by (simp add: replace_loop_found replace_loop_absent)

lemma contains_str_replace:
  assumes v: "contains v tok" and f: "find_str s tok = Some p"
  shows "contains (str_replace s p (length tok) v) tok"
proof -
  from v obtain A B where "v = A @ tok @ B" by (auto simp: contains_iff)
  then have "str_replace s p (length tok) v = (take p s @ A) @ tok @ (B @ drop (p + length tok) s)"
    by (simp add: str_replace_def)
  then show ?thesis unfolding contains_iff by blast
qed

lemma replace_loop_diverges:
  assumes v: "contains v tok" and s: "contains s tok"
  shows "replace_loop tok v s = None"
proof (cases "replace_loop tok v s")
  case None
  then show ?thesis .
next
  case (Some r)
  have "\<not> (contains v tok \<and> contains s tok)"
  proof (rule replace_loop.raw_induct
      [where P = "\<lambda>tok v s r. \<not> (contains v tok \<and> contains s tok)", OF _ Some])
    fix rl tok v result y
    assume IH: "\<And>tok v result y. rl tok v result = Some y \<Longrightarrow> \<not> (contains v tok \<and> contains result tok)"
      and body: "(case find_str result tok of None \<Rightarrow> Some result
               | Some pos \<Rightarrow> rl tok v (str_replace result pos (length tok) v)) = Some y"
    show "\<not> (contains v tok \<and> contains result tok)"
    proof
      assume c: "contains v tok \<and> contains result tok"
      then obtain pos where pos: "find_str result tok = Some pos" by (auto simp: contains_def)
      with body have "rl tok v (str_replace result pos (length tok) v) = Some y" by simp
      from IH[OF this] contains_str_replace[OF _ pos, of v] c show False by blast
    qed
  qed
  with v s show ?thesis by simp
qed

text \<open>
  What does hold of \<open>_CreateLogStr\<close> around unknown tokens. A template in which none of
  the ten recognized tokens occurs comes back unchanged, for every record, and the
  function returns. A token-shaped string that is not one of the ten, occurring in the
  template, still occurs in the result when there is one.
\<close>

lemma CreateLogStr_identity:
  assumes "\<forall>t\<in>set recognized_tokens. \<not> contains tpl t"
  shows "CreateLogStr ck (d\<lparr>log_format := tpl\<rparr>) = Some tpl"
proof -
  have "\<forall>e\<in>set (subs_of ck (d\<lparr>log_format := tpl\<rparr>)). \<not> contains tpl (fst e)"
    using subs_of_keys[of ck "d\<lparr>log_format := tpl\<rparr>"] assms by blast
  from subst_all_absent[OF this] show ?thesis by (simp add: CreateLogStr_def)
qed

lemma CreateLogStr_keeps_unrecognized:
  assumes "token_shaped u" and "u \<notin> set recognized_tokens" and "contains (log_format d) u"
    and "CreateLogStr ck d = Some out"
  shows "contains out u"
proof -
  from assms(1) have U: "bracketed u" by (simp add: token_shaped_def)
  have "\<forall>e\<in>set (subs_of ck d). bracketed (fst e) \<and> fst e \<noteq> u"
    using subs_of_keys[of ck d] recognized_bracketed assms(2) by blast
  from subst_all_keeps[OF U this, of "log_format d" out] assms(3,4)
  show ?thesis by (simp add: CreateLogStr_def)
qed

text \<open>
  Claim C8. The template \<open>%(USER) %(MSG)\<close> holds the unrecognized token \<open>%(USER)\<close>.
  For a record whose message is the text \<open>%(MSG)\<close> the loop for \<open>%(MSG)\<close> never
  ends, so there is no output in which the token could have been left verbatim.
\<close>

theorem CreateLogStr_unrecognized_token_no_output:
  "token_shaped ''%(USER)'' \<and> ''%(USER)'' \<notin> set recognized_tokens \<and>
   contains ''%(USER) %(MSG)'' ''%(USER)'' \<and>
   CreateLogStr example_clock
     (example_record\<lparr>log_format := ''%(USER) %(MSG)'', msg := ''%(MSG)''\<rparr>) = None"
  by (simp add: token_shaped_def bracketed_def recognized_tokens_def CreateLogStr_def subs_of_def
      example_record_def contains_def replace_loop_once replace_loop_absent
      replace_loop_diverges str_replace_def)

text \<open>
  Claim C2. The template \<open>%(MSG) pid=%(PID)\<close> with the message text \<open>%(PID)\<close>, from
  process 42: the pass for \<open>%(MSG)\<close> puts the message in, and the later pass for
  \<open>%(PID)\<close> replaces the token inside the message too. One pass per token would leave
  \<open>%(PID) pid=42\<close>.
\<close>

theorem CreateLogStr_substitutes_twice:
  "CreateLogStr example_clock
     (example_record\<lparr>log_format := ''%(MSG) pid=%(PID)'', msg := ''%(PID)''\<rparr>)
   = Some ''42 pid=42''"
  by (simp add: CreateLogStr_def subs_of_def example_record_def contains_def replace_loop_absent
      replace_loop_found str_replace_def to_string_int_def digit_char_def)

text \<open>
  Claim C10. Under the default template, a record whose message is the text \<open>%(MSG)\<close>:
  each round of the loop for \<open>%(MSG)\<close> finds the token again in what it has just
  inserted, and \<open>_CreateLogStr\<close> never returns.
\<close>

theorem CreateLogStr_never_returns:
  "CreateLogStr example_clock (example_record\<lparr>msg := ''%(MSG)''\<rparr>) = None"
  by (simp add: CreateLogStr_def subs_of_def example_record_def contains_def replace_loop_once
      replace_loop_absent replace_loop_diverges str_replace_def to_string_int_def digit_char_def)

section \<open>The print task\<close>

text \<open>
  Claim C9. The task hands the formatted line to \<open>fprintf\<close> as its format string.
  A line with a single \<open>%\<close> (the message \<open>load 5%\<close>) is a format with an invalid
  conversion; a line with \<open>%%\<close> is written with one \<open>%\<close>. In neither case does the
  stream receive the formatted line.
\<close>

theorem print_func_format_string:
  "print_func example_clock (\<lambda>_. False) (example_record\<lparr>msg := ''load 5%''\<rparr>) True
     = Inl UndefinedBehaviour \<and>
   CreateLogStr example_clock (example_record\<lparr>msg := ''load 5%%''\<rparr>)
     = Some ''[INF] main.cc: 7: load 5%%'' \<and>
   print_func example_clock (\<lambda>_. False) (example_record\<lparr>msg := ''load 5%%''\<rparr>) True
     = Inr (''[INF] main.cc: 7: load 5%'' @ [CHR 0x0A])"
  by (simp add: print_func_def c_str_def CreateLogStr_def subs_of_def example_record_def
      contains_def replace_loop_absent replace_loop_found str_replace_def to_string_int_def
      digit_char_def)


section \<open>The initial level\<close>

lemma level_dict_sorted:
  "level_dict =
     [([''CRIT'', ''CRT'', ''crit'', ''crt''], LOG_LEVEL_CRITICAL),
      ([''DEBUG'', ''DBG'', ''debug'', ''dbg''], LOG_LEVEL_DEBUG),
      ([''ERR'', ''err''], LOG_LEVEL_ERROR),
      ([''INF'', ''inf''], LOG_LEVEL_INFO),
      ([''TRACE'', ''TRC'', ''trace'', ''trc''], LOG_LEVEL_TRACE),
      ([''WARN'', ''WRN'', ''warn'', ''wrn''], LOG_LEVEL_WARNING)]"
  by (simp add: level_dict_def)

lemma find_ne_None: "(find P xs \<noteq> None) = list_ex P xs"
  by (induction xs) auto

lemma case_option_if:
  "(case (if c then a else b) of None \<Rightarrow> d | Some p \<Rightarrow> f p) =
     (if c then (case a of None \<Rightarrow> d | Some p \<Rightarrow> f p)
      else (case b of None \<Rightarrow> d | Some p \<Rightarrow> f p))"
  by simp

text \<open>
  Claim C7, as stated, fails: the value \<open>Debug\<close> matches the DEBUG tokens, and no
  others, when case is ignored, yet \<open>LogLevelFromEnv\<close> answers INFO. The table lists
  each token in upper case and in lower case only, and \<open>std::string::find\<close> compares
  bytes.
\<close>

theorem LogLevelFromEnv_mixed_case:
  "ci_matches ''Debug'' = [LOG_LEVEL_DEBUG] \<and> LogLevelFromEnv (Some ''Debug'') = LOG_LEVEL_INFO"
  by (simp add: ci_matches_def ci_contains_def contains_def to_upper_def level_dict_sorted LogLevelFromEnv_def)

text \<open>
  Claim C7, amended. An unset variable gives INFO. A set one is searched, byte for byte,
  for the spellings the table lists (each token in upper case and in lower case); the
  levels are tried in the order of the map's keys, CRITICAL, DEBUG, ERROR, INFO, TRACE,
  WARNING, and the first level with a spelling in the value is the answer; with none, INFO.
  The function is total: no value makes it fail.
\<close>

theorem LogLevelFromEnv_listed_spellings:
  "LogLevelFromEnv None = LOG_LEVEL_INFO \<and>
   LogLevelFromEnv (Some e) =
     (if contains e ''CRIT'' \<or> contains e ''CRT'' \<or> contains e ''crit'' \<or> contains e ''crt''
        then LOG_LEVEL_CRITICAL
      else if contains e ''DEBUG'' \<or> contains e ''DBG'' \<or> contains e ''debug'' \<or> contains e ''dbg''
        then LOG_LEVEL_DEBUG
      else if contains e ''ERR'' \<or> contains e ''err'' then LOG_LEVEL_ERROR
      else if contains e ''INF'' \<or> contains e ''inf'' then LOG_LEVEL_INFO
      else if contains e ''TRACE'' \<or> contains e ''TRC'' \<or> contains e ''trace'' \<or> contains e ''trc''
        then LOG_LEVEL_TRACE
      else if contains e ''WARN'' \<or> contains e ''WRN'' \<or> contains e ''warn'' \<or> contains e ''wrn''
        then LOG_LEVEL_WARNING
      else LOG_LEVEL_INFO)"
  by (simp only: LogLevelFromEnv_def level_dict_sorted contains_def case_option_if find.simps
      find_ne_None list_ex_Nil_iff list_ex_Cons_iff option.case fst_conv snd_conv simp_thms)

theorem LogLevelFromEnv_listed_spellings_witness:
  "LogLevelFromEnv None = LOG_LEVEL_INFO \<and> LogLevelFromEnv (Some ''warn,trace'') = LOG_LEVEL_TRACE
   \<and> LogLevelFromEnv (Some ''verbose'') = LOG_LEVEL_INFO"
  using LogLevelFromEnv_listed_spellings[of "''warn,trace''"] LogLevelFromEnv_listed_spellings[of "''verbose''"]
  by (simp add: contains_def)

section \<open>The call-site macros\<close>

lemma severity_ev:
  assumes "counts_from_critical ev"
  shows "ev a \<ge> ev b \<longleftrightarrow> severity a \<le> severity b"
  using assms unfolding counts_from_critical_def
  by (cases a; cases b; simp)

lemmas macro_defs =
  CRT_macro_def ERR_macro_def WRN_macro_def INF_macro_def DBG_macro_def TRC_macro_def
  EnqueueLogTask_def EnqueueTask_def GetMsgId_def IncMsgId_def GetLevel_def GetFormatStr_def
  GetFileDesc_def IsColored_def Let_def

text \<open>
  Claim C4. With enumerators that count the levels from CRITICAL down to TRACE, a macro
  appends its print task to the queue exactly when it is \<open>CRT\<close> or its level is at or
  above the logger's current level in the order of severity; the task carries the colour
  flag of the moment, the id read from the counter and the formatted text, cut to the
  buffer and at its first NUL. Otherwise the queue is left as it was, so nothing of the
  call can be written.
\<close>

theorem macro_dispatch_by_level:
  assumes "counts_from_critical ev"
  shows "if m = CRT \<or> severity (level_m L) \<le> severity (macro_level m)
         then \<exists>d. queue_m (expand ev m c cs L) = queue_m L @ [PrintTask d (is_colored_m L)] \<and>
                  msg d = c_str (take (MAX_MSG_LENGTH - 1) (cs_text cs)) \<and>
                  msg_id d = msg_id_m L
         else queue_m (expand ev m c cs L) = queue_m L"
  using severity_ev[OF assms]
  by (cases m) (simp_all add: macro_defs)

theorem macro_dispatch_by_level_witness:
  "counts_from_critical enum_from_critical \<and>
   queue_m (expand enum_from_critical WRN example_caller example_site
              ((Logger_ctor None)\<lparr>level_m := LOG_LEVEL_ERROR\<rparr>)) = [] \<and>
   (\<exists>d. queue_m (expand enum_from_critical CRT example_caller example_site
                    ((Logger_ctor None)\<lparr>level_m := LOG_LEVEL_CRITICAL\<rparr>)) = [PrintTask d True] \<and>
        msg d = ''started'' \<and> msg_id d = 0)"
proof -
  have h: "counts_from_critical enum_from_critical"
    by (simp add: counts_from_critical_def)
  from macro_dispatch_by_level[OF h, of WRN "(Logger_ctor None)\<lparr>level_m := LOG_LEVEL_ERROR\<rparr>"
      example_caller example_site]
  have 1: "queue_m (expand enum_from_critical WRN example_caller example_site
              ((Logger_ctor None)\<lparr>level_m := LOG_LEVEL_ERROR\<rparr>)) = []"
    by (simp add: Logger_ctor_def)
  from macro_dispatch_by_level[OF h, of CRT "(Logger_ctor None)\<lparr>level_m := LOG_LEVEL_CRITICAL\<rparr>"
      example_caller example_site]
  have 2: "\<exists>d. queue_m (expand enum_from_critical CRT example_caller example_site
                    ((Logger_ctor None)\<lparr>level_m := LOG_LEVEL_CRITICAL\<rparr>)) = [PrintTask d True] \<and>
        msg d = ''started'' \<and> msg_id d = 0"
    by (simp add: Logger_ctor_def example_site_def MAX_MSG_LENGTH_def c_str_def)
  from h 1 2 show ?thesis by blast
qed

text \<open>
  Claim C6. A macro other than \<open>CRT\<close> whose level is below the logger's current level
  leaves the logger as it was except for the message-id counter, which has gone up by one
  (modulo \<open>2^64\<close>): no task is enqueued and no other member changes.
\<close>

theorem suppressed_call_only_counts:
  assumes "counts_from_critical ev" and "m \<noteq> CRT"
    and "severity (macro_level m) < severity (level_m L)"
  shows "expand ev m c cs L = L\<lparr>msg_id_m := msg_id_m L + 1\<rparr>"
  using severity_ev[OF assms(1)] assms(2,3)
  by (cases m) (simp_all add: macro_defs)

theorem suppressed_call_only_counts_witness:
  "counts_from_critical enum_from_critical \<and> TRC \<noteq> CRT \<and>
   severity (macro_level TRC) < severity (level_m (Logger_ctor None)) \<and>
   expand enum_from_critical TRC example_caller example_site (Logger_ctor None)
     = (Logger_ctor None)\<lparr>msg_id_m := 1\<rparr>"
proof -
  have h: "counts_from_critical enum_from_critical"
    by (simp add: counts_from_critical_def)
  have l: "severity (macro_level TRC) < severity (level_m (Logger_ctor None))"
    by (simp add: Logger_ctor_def LogLevelFromEnv_def)
  have m: "TRC \<noteq> CRT" by simp
  from suppressed_call_only_counts[OF h m l, of example_caller example_site] h l
  show ?thesis by (simp add: Logger_ctor_def)
qed

section \<open>Message ids\<close>

text \<open>
  Claim C5. Two threads, 0 and 1, each make one logging call on a fresh logger. When both
  read the counter before either increments it (schedule 0, 1, 0, 1), both calls get the
  id 0: reading and incrementing are two separate accesses.
\<close>

theorem msg_id_issued_twice:
  "issued (snd (id_run [0, 1, 0, 1] (Logger_ctor None, \<lambda>_. thread_new)) 0) = [0] \<and>
   issued (snd (id_run [0, 1, 0, 1] (Logger_ctor None, \<lambda>_. thread_new)) 1) = [0]"
  by (simp add: id_run_def id_step_def thread_new_def GetMsgId_def IncMsgId_def Logger_ctor_def)


section \<open>The pipeline\<close>

lemma run_Nil [simp]: "run [] s = s" by (simp add: run_def)
lemma run_Cons [simp]: "run (e # evs) s = run evs (step e s)" by (simp add: run_def)
lemma run_append: "run (evs @ evs') s = run evs' (run evs s)" by (simp add: run_def)

lemma enqueued_append: "enqueued (evs @ evs') = enqueued evs @ enqueued evs'"
  by (induction evs rule: enqueued.induct) auto

lemma ProcessingLoop_step_tasks:
  "executed (ProcessingLoop_step s) @ exec_list_m (ProcessingLoop_step s) @ queue_m (ProcessingLoop_step s)
     = executed s @ exec_list_m s @ queue_m s"
  by (cases "worker s") (auto simp: ProcessingLoop_step_def split: list.splits)

lemma Flush_step_tasks:
  "executed (Flush_step s) = executed s \<and> exec_list_m (Flush_step s) = exec_list_m s \<and>
   queue_m (Flush_step s) = queue_m s \<and> worker (Flush_step s) = worker s \<and>
   stop_loop_m (Flush_step s) = stop_loop_m s"
  by (cases "flusher s") (auto simp: Flush_step_def)

lemma step_tasks:
  "executed (step e s) @ exec_list_m (step e s) @ queue_m (step e s)
     = executed s @ exec_list_m s @ queue_m s @ enqueued [e]"
  by (cases e) (simp_all add: ProcessingLoop_step_tasks Flush_step_tasks EnqueueTask_def)

lemma run_tasks:
  "executed (run evs s) @ exec_list_m (run evs s) @ queue_m (run evs s)
     = executed s @ exec_list_m s @ queue_m s @ enqueued evs"
proof (induction evs arbitrary: s)
  case Nil
  then show ?case by simp
next
  case (Cons e evs)
  have "enqueued (e # evs) = enqueued [e] @ enqueued evs" by (cases e) simp_all
  with Cons[of "step e s"] step_tasks[of e s] show ?case by simp
qed

lemma boot_fields:
  "queue_m (boot env) = []" "exec_list_m (boot env) = []" "executed (boot env) = []"
  "worker (boot env) = Waiting" "flusher (boot env) = NotInFlush" "stop_loop_m (boot env) = False"
  by (simp_all add: boot_def Logger_ctor_def Logger.defs System.defs)

lemma boot_lock_inv: "lock_inv (boot env)"
  by (simp add: lock_inv_def boot_fields)

lemma ProcessingLoop_step_lock_inv: "lock_inv s \<Longrightarrow> lock_inv (ProcessingLoop_step s)"
  by (cases "worker s") (auto simp: lock_inv_def ProcessingLoop_step_def split: list.splits)

lemma step_lock_inv: "lock_inv s \<Longrightarrow> lock_inv (step e s)"
proof (cases e)
  case WorkerStep
  assume "lock_inv s"
  with WorkerStep show ?thesis by (simp add: ProcessingLoop_step_lock_inv)
next
  case FlushPoll
  assume "lock_inv s"
  with FlushPoll Flush_step_tasks[of s] show ?thesis by (simp add: lock_inv_def)
qed (auto simp: lock_inv_def EnqueueTask_def)

lemma run_lock_inv: "lock_inv s \<Longrightarrow> lock_inv (run evs s)"
  by (induction evs arbitrary: s) (simp_all add: step_lock_inv)

lemma prefix_snoc: "prefix p (a @ b @ q) \<Longrightarrow> prefix p (a @ b @ q @ [t])"
  by (metis append.assoc prefix_def)

lemma step_flush_inv:
  assumes L: "lock_inv s" and F: "flush_inv pend s"
  shows "flush_inv pend (step e s)"
proof (cases e)
  case (Enqueue t)
  with F show ?thesis by (auto simp: flush_inv_def EnqueueTask_def prefix_snoc)
next
  case ShutdownCall
  with F show ?thesis by (simp add: flush_inv_def)
next
  case WorkerStep
  show ?thesis
  proof (cases "worker s")
    case Waiting
    with F WorkerStep show ?thesis
      by (auto simp: flush_inv_def ProcessingLoop_step_def intro: prefix_order.trans)
  next
    case Executing
    with F WorkerStep show ?thesis
      by (auto simp: flush_inv_def ProcessingLoop_step_def split: list.splits intro: prefix_order.trans)
  next
    case CheckStop
    with F WorkerStep show ?thesis by (auto simp: flush_inv_def ProcessingLoop_step_def)
  next
    case CheckQueue
    with F WorkerStep show ?thesis by (auto simp: flush_inv_def ProcessingLoop_step_def)
  next
    case Terminated
    with F WorkerStep show ?thesis by (auto simp: flush_inv_def ProcessingLoop_step_def)
  qed
next
  case FlushCall
  with F show ?thesis by (simp add: flush_inv_def)
next
  case FlushPoll
  with L F show ?thesis
    by (cases "flusher s") (auto simp: flush_inv_def lock_inv_def Flush_step_def)
qed

lemma run_flush_inv: "lock_inv s \<Longrightarrow> flush_inv pend s \<Longrightarrow> flush_inv pend (run evs s)"
  by (induction evs arbitrary: s) (simp_all add: step_flush_inv step_lock_inv)

lemma run_boot_tasks:
  "executed (run evs (boot env)) @ exec_list_m (run evs (boot env)) @ queue_m (run evs (boot env))
     = enqueued evs"
  using run_tasks[of evs "boot env"] by (simp add: boot_fields)

lemma prefix_split:
  assumes "prefix p x" and "x @ y = p @ q"
  shows "\<exists>rest. x = p @ rest \<and> rest @ y = q"
proof -
  from assms(1) obtain rest where "x = p @ rest" by (auto simp: prefix_def)
  with assms(2) show ?thesis by simp
qed

lemma Flush_step_returned:
  "flusher s \<noteq> FlushReturned \<Longrightarrow> flusher (step e s) = FlushReturned \<Longrightarrow>
     e = FlushPoll \<and> flusher s = FlushCheckExec \<and> exec_list_m s = []"
  by (cases e; cases "flusher s")
     (auto simp: Flush_step_def ProcessingLoop_step_def EnqueueTask_def
        split: if_splits worker_pc.splits list.splits)

lemma Flush_step_check_exec:
  "flusher s \<noteq> FlushCheckExec \<Longrightarrow> flusher (step e s) = FlushCheckExec \<Longrightarrow>
     e = FlushPoll \<and> flusher s = FlushCheckQueue \<and> queue_m s = []"
  by (cases e; cases "flusher s")
     (auto simp: Flush_step_def ProcessingLoop_step_def EnqueueTask_def
        split: if_splits worker_pc.splits list.splits)

lemma run_stop: "stop_loop_m (run evs s) = (stop_loop_m s \<or> ShutdownCall \<in> set evs)"
proof (induction evs arbitrary: s)
  case Nil
  then show ?case by simp
next
  case (Cons e evs)
  have "stop_loop_m (step e s) = (stop_loop_m s \<or> e = ShutdownCall)"
    using Flush_step_tasks[of s]
    by (cases e; cases "worker s")
       (auto simp: ProcessingLoop_step_def EnqueueTask_def split: list.splits)
  with Cons[of "step e s"] show ?case by auto
qed

lemma step_stop_inv:
  assumes L: "lock_inv s" and F: "stop_inv pend s"
  shows "stop_inv pend (step e s)"
proof (cases e)
  case (Enqueue t)
  with F show ?thesis by (auto simp: stop_inv_def EnqueueTask_def prefix_snoc)
next
  case ShutdownCall
  with F show ?thesis by (simp add: stop_inv_def)
next
  case WorkerStep
  with L F show ?thesis
    by (cases "worker s")
       (auto simp: stop_inv_def lock_inv_def ProcessingLoop_step_def split: list.splits)
next
  case FlushCall
  with F show ?thesis by (simp add: stop_inv_def)
next
  case FlushPoll
  with F Flush_step_tasks[of s] show ?thesis by (simp add: stop_inv_def)
qed

lemma run_stop_inv: "lock_inv s \<Longrightarrow> stop_inv pend s \<Longrightarrow> stop_inv pend (run evs s)"
  by (induction evs arbitrary: s) (simp_all add: step_stop_inv step_lock_inv)

lemma worker_exit:
  assumes L: "lock_inv s" and a: "worker s \<noteq> Terminated" and b: "worker (step e s) = Terminated"
  shows "e = WorkerStep \<and> worker s = CheckQueue \<and> stop_loop_m s \<and> queue_m s = [] \<and> exec_list_m s = []"
proof (cases e)
  case WorkerStep
  with L a b show ?thesis
    by (cases "worker s")
       (auto simp: lock_inv_def ProcessingLoop_step_def split: list.splits if_splits)
next
  case FlushPoll
  with a b Flush_step_tasks[of s] show ?thesis by simp
qed (use a b in \<open>auto simp: EnqueueTask_def\<close>)

lemma boot_eq:
  "boot env = \<lparr>stop_loop_m = False, is_colored_m = True, level_m = LogLevelFromEnv env, msg_id_m = 0,
      format_str_m = ''[%(LEVEL)] %(FILENAME): %(LINE): %(MSG)'', fd_m = stderr_fd,
      queue_m = [], exec_list_m = [], worker = Waiting, flusher = NotInFlush, executed = []\<rparr>"
  by (simp add: boot_def Logger_ctor_def Logger.defs System.defs)

lemmas run_eval = boot_eq ProcessingLoop_step_def Flush_step_def EnqueueTask_def

text \<open>
  Claim C1. Take any interleaving of enqueue calls, worker steps, \<open>Shutdown\<close> and
  \<open>Flush\<close> calls, then a call of \<open>Flush\<close>, then any further interleaving. If at its
  end \<open>Flush\<close> has returned, the tasks the worker has executed begin with the tasks
  enqueued before the call, each once and in the order of the enqueue calls; what follows
  them, together with the execution list and the queue, is exactly what was enqueued
  after the call. With no enqueue call after the call of \<open>Flush\<close>, the executed tasks
  are therefore exactly the enqueued ones. And \<open>Flush\<close> returns only from its read of
  the execution list, finding it empty, which it reaches only from its read of the queue,
  finding it empty.
\<close>

theorem Flush_returns_after_pending_tasks_ran:
  "(flusher (run (evs0 @ FlushCall # evs1) (boot env)) = FlushReturned \<longrightarrow>
      (\<exists>rest. executed (run (evs0 @ FlushCall # evs1) (boot env)) = enqueued evs0 @ rest \<and>
         rest @ exec_list_m (run (evs0 @ FlushCall # evs1) (boot env))
              @ queue_m (run (evs0 @ FlushCall # evs1) (boot env)) = enqueued evs1)) \<and>
   (flusher s \<noteq> FlushReturned \<and> flusher (step e s) = FlushReturned \<longrightarrow>
      e = FlushPoll \<and> flusher s = FlushCheckExec \<and> exec_list_m s = []) \<and>
   (flusher s \<noteq> FlushCheckExec \<and> flusher (step e s) = FlushCheckExec \<longrightarrow>
      e = FlushPoll \<and> flusher s = FlushCheckQueue \<and> queue_m s = [])"
proof (intro conjI impI)
  let ?s0 = "run evs0 (boot env)"
  let ?s1 = "step FlushCall ?s0"
  let ?s' = "run (evs0 @ FlushCall # evs1) (boot env)"
  assume ret: "flusher ?s' = FlushReturned"
  have s': "?s' = run evs1 ?s1" by (simp add: run_append)
  have L0: "lock_inv ?s0" by (rule run_lock_inv[OF boot_lock_inv])
  then have L1: "lock_inv ?s1" by (rule step_lock_inv)
  have "flush_inv (enqueued evs0) ?s1"
    using run_boot_tasks[of evs0 env] by (simp add: flush_inv_def)
  from run_flush_inv[OF L1 this, of evs1] ret s'
  have p: "prefix (enqueued evs0) (executed ?s')" by (simp add: flush_inv_def)
  have "executed ?s' @ exec_list_m ?s' @ queue_m ?s' = enqueued evs0 @ enqueued evs1"
    using run_boot_tasks[of "evs0 @ FlushCall # evs1" env] by (simp add: enqueued_append)
  from prefix_split[OF p this]
  show "\<exists>rest. executed ?s' = enqueued evs0 @ rest \<and>
         rest @ exec_list_m ?s' @ queue_m ?s' = enqueued evs1" .
next
  assume "flusher s \<noteq> FlushReturned \<and> flusher (step e s) = FlushReturned"
  then show "e = FlushPoll" "flusher s = FlushCheckExec" "exec_list_m s = []"
    using Flush_step_returned[of s e] by simp_all
next
  assume "flusher s \<noteq> FlushCheckExec \<and> flusher (step e s) = FlushCheckExec"
  then show "e = FlushPoll" "flusher s = FlushCheckQueue" "queue_m s = []"
    using Flush_step_check_exec[of s e] by simp_all
qed

theorem Flush_returns_after_pending_tasks_ran_witness:
  "flusher (run ([Enqueue example_task1, Enqueue example_task2] @ FlushCall #
                  [WorkerStep, FlushPoll, WorkerStep, WorkerStep, WorkerStep, FlushPoll]) (boot None))
     = FlushReturned \<and>
   executed (run ([Enqueue example_task1, Enqueue example_task2] @ FlushCall #
                  [WorkerStep, FlushPoll, WorkerStep, WorkerStep, WorkerStep, FlushPoll]) (boot None))
     = [example_task1, example_task2] \<and>
   exec_list_m (run [Enqueue example_task1, FlushCall, WorkerStep, FlushPoll, WorkerStep, WorkerStep] (boot None)) = [] \<and>
   queue_m (run [Enqueue example_task1, FlushCall, WorkerStep] (boot None)) = []"
proof -
  let ?evs0 = "[Enqueue example_task1, Enqueue example_task2]"
  let ?evs1 = "[WorkerStep, FlushPoll, WorkerStep, WorkerStep, WorkerStep, FlushPoll]"
  let ?s = "run (?evs0 @ FlushCall # ?evs1) (boot None)"
  let ?a = "run [Enqueue example_task1, FlushCall, WorkerStep, FlushPoll, WorkerStep, WorkerStep] (boot None)"
  let ?b = "run [Enqueue example_task1, FlushCall, WorkerStep] (boot None)"
  note T = Flush_returns_after_pending_tasks_ran
  have ret: "flusher ?s = FlushReturned" by (simp add: run_eval)
  with T[of ?evs0 ?evs1 None] obtain rest where
    "executed ?s = enqueued ?evs0 @ rest" "rest @ exec_list_m ?s @ queue_m ?s = enqueued ?evs1"
    by blast
  then have 1: "executed ?s = [example_task1, example_task2]" by simp
  have "flusher ?a \<noteq> FlushReturned \<and> flusher (step FlushPoll ?a) = FlushReturned"
    by (simp add: run_eval)
  with T[of _ _ _ ?a FlushPoll] have 2: "exec_list_m ?a = []" by blast
  have "flusher ?b \<noteq> FlushCheckExec \<and> flusher (step FlushPoll ?b) = FlushCheckExec"
    by (simp add: run_eval)
  with T[of _ _ _ ?b FlushPoll] have 3: "queue_m ?b = []" by blast
  from ret 1 2 3 show ?thesis by blast
qed

text \<open>
  Claim C3, as stated, fails for a call of \<open>Shutdown\<close> that is not the first (the
  exit hook calls it again after an explicit \<open>ShutdownLog\<close>). Here the worker has
  returned after a first call; a task is enqueued; \<open>Shutdown\<close> is called again and
  finds the thread no longer joinable. The worker has returned, and the task enqueued
  before this call is still in the queue, not executed.
\<close>

theorem Shutdown_after_exit_drops_task:
  "worker (run ([ShutdownCall, WorkerStep, WorkerStep, WorkerStep, WorkerStep,
                 Enqueue example_task1] @ ShutdownCall # [WorkerStep, WorkerStep])
            (boot None)) = Terminated \<and>
   enqueued [ShutdownCall, WorkerStep, WorkerStep, WorkerStep, WorkerStep,
             Enqueue example_task1] = [example_task1] \<and>
   executed (run ([ShutdownCall, WorkerStep, WorkerStep, WorkerStep, WorkerStep,
                   Enqueue example_task1] @ ShutdownCall # [WorkerStep, WorkerStep])
              (boot None)) = [] \<and>
   queue_m (run ([ShutdownCall, WorkerStep, WorkerStep, WorkerStep, WorkerStep,
                  Enqueue example_task1] @ ShutdownCall # [WorkerStep, WorkerStep])
             (boot None)) = [example_task1]"
  by (simp add: run_eval)

text \<open>
  Claim C3, amended. The worker returns only from the read of the queue in its loop
  condition, with the stop flag set and both the queue and the execution list empty. And
  when \<open>Shutdown\<close> is called for the first time and the worker has returned (so the
  join in \<open>Shutdown\<close> returns), the tasks enqueued before the call have all been
  executed, each once and in order; the execution list is empty and the queue holds only
  tasks enqueued after the worker's last look at it.
\<close>

theorem Shutdown_drains_queue:
  "(worker (run evs (boot env)) \<noteq> Terminated \<and>
    worker (step e (run evs (boot env))) = Terminated \<longrightarrow>
      stop_loop_m (run evs (boot env)) \<and> queue_m (run evs (boot env)) = [] \<and>
      exec_list_m (run evs (boot env)) = []) \<and>
   (ShutdownCall \<notin> set evs0 \<and>
    worker (run (evs0 @ ShutdownCall # evs1) (boot env)) = Terminated \<longrightarrow>
      (\<exists>rest. executed (run (evs0 @ ShutdownCall # evs1) (boot env)) = enqueued evs0 @ rest \<and>
         rest @ queue_m (run (evs0 @ ShutdownCall # evs1) (boot env)) = enqueued evs1 \<and>
         exec_list_m (run (evs0 @ ShutdownCall # evs1) (boot env)) = []))"
proof (intro conjI impI)
  assume h: "worker (run evs (boot env)) \<noteq> Terminated \<and>
    worker (step e (run evs (boot env))) = Terminated"
  have "lock_inv (run evs (boot env))" by (rule run_lock_inv[OF boot_lock_inv])
  from worker_exit[OF this, of e] h
  show "stop_loop_m (run evs (boot env))" "queue_m (run evs (boot env)) = []"
    "exec_list_m (run evs (boot env)) = []" by simp_all
next
  let ?s0 = "run evs0 (boot env)"
  let ?s1 = "step ShutdownCall ?s0"
  let ?s' = "run (evs0 @ ShutdownCall # evs1) (boot env)"
  assume h: "ShutdownCall \<notin> set evs0 \<and> worker ?s' = Terminated"
  have s': "?s' = run evs1 ?s1" by (simp add: run_append)
  have L0: "lock_inv ?s0" by (rule run_lock_inv[OF boot_lock_inv])
  then have L1: "lock_inv ?s1" by (rule step_lock_inv)
  have "\<not> stop_loop_m ?s0" using h by (simp add: run_stop boot_fields)
  with L0 have "worker ?s0 \<noteq> Terminated" by (auto simp: lock_inv_def)
  then have "stop_inv (enqueued evs0) ?s1"
    using run_boot_tasks[of evs0 env] by (simp add: stop_inv_def)
  from run_stop_inv[OF L1 this, of evs1] h s'
  have p: "prefix (enqueued evs0) (executed ?s')" by (simp add: stop_inv_def)
  have L': "lock_inv ?s'" by (rule run_lock_inv[OF boot_lock_inv])
  with h have e: "exec_list_m ?s' = []" by (simp add: lock_inv_def)
  have "executed ?s' @ exec_list_m ?s' @ queue_m ?s' = enqueued evs0 @ enqueued evs1"
    using run_boot_tasks[of "evs0 @ ShutdownCall # evs1" env] by (simp add: enqueued_append)
  with e have "executed ?s' @ queue_m ?s' = enqueued evs0 @ enqueued evs1" by simp
  from prefix_split[OF p this] e
  show "\<exists>rest. executed ?s' = enqueued evs0 @ rest \<and> rest @ queue_m ?s' = enqueued evs1 \<and>
         exec_list_m ?s' = []" by blast
qed

theorem Shutdown_drains_queue_witness:
  "worker (run ([Enqueue example_task1, WorkerStep, Enqueue example_task2] @ ShutdownCall #
                 [WorkerStep, WorkerStep, WorkerStep, WorkerStep, WorkerStep, WorkerStep,
                  WorkerStep, WorkerStep, WorkerStep]) (boot None)) = Terminated \<and>
   executed (run ([Enqueue example_task1, WorkerStep, Enqueue example_task2] @ ShutdownCall #
                 [WorkerStep, WorkerStep, WorkerStep, WorkerStep, WorkerStep, WorkerStep,
                  WorkerStep, WorkerStep, WorkerStep]) (boot None)) = [example_task1, example_task2] \<and>
   stop_loop_m (run [ShutdownCall, WorkerStep, WorkerStep, WorkerStep] (boot None)) \<and>
   queue_m (run [ShutdownCall, WorkerStep, WorkerStep, WorkerStep] (boot None)) = []"
proof -
  let ?evs0 = "[Enqueue example_task1, WorkerStep, Enqueue example_task2]"
  let ?evs1 = "[WorkerStep, WorkerStep, WorkerStep, WorkerStep, WorkerStep, WorkerStep,
                  WorkerStep, WorkerStep, WorkerStep]"
  let ?s = "run (?evs0 @ ShutdownCall # ?evs1) (boot None)"
  let ?a = "run [ShutdownCall, WorkerStep, WorkerStep, WorkerStep] (boot None)"
  note T = Shutdown_drains_queue
  have fin: "worker ?s = Terminated" by (simp add: run_eval)
  have "ShutdownCall \<notin> set ?evs0" by simp
  with fin T[of _ _ _ ?evs0 ?evs1] obtain rest where
    "executed ?s = enqueued ?evs0 @ rest" "rest @ queue_m ?s = enqueued ?evs1"
    by blast
  then have 1: "executed ?s = [example_task1, example_task2]" by simp
  have "worker ?a \<noteq> Terminated \<and> worker (step WorkerStep ?a) = Terminated"
    by (simp add: run_eval)
  with T[of "[ShutdownCall, WorkerStep, WorkerStep, WorkerStep]" None WorkerStep]
  have 2: "stop_loop_m ?a \<and> queue_m ?a = []" by blast
  from fin 1 2 show ?thesis by blast
qed

end
